theory Spec2Isabelle
  imports Complex_Main
begin

section \<open>NPV / IRR solver (project2.py)\<close>

text \<open>
  The script computes with Python floats. They are modelled as exact reals: rounding,
  overflow and underflow of IEEE doubles are outside this embedding. What Python raises
  is kept as a value: a float division by zero is \<open>ZeroDivisionError\<close>, and reading the
  local \<open>mid\<close> before any loop iteration has bound it is \<open>UnboundLocalError\<close>.

  Three things the doubles do and the exact reals do not, each of which changes what a
  run returns:
  \<^item> \<open>(1 + rate) ** t\<close> underflows to \<open>0.0\<close> (at rate \<open>-0.99\<close> from \<open>t = 162\<close> on) and the
    division then raises \<open>ZeroDivisionError\<close>; it overflows for large rates and raises
    \<open>OverflowError\<close>. Here a power is zero only at rate \<open>-1\<close>.
  \<^item> a product of two NPVs underflows to \<open>0.0\<close>, so a test \<open>a * b > 0\<close> or \<open>a * b < 0\<close>
    can fail for two small values of the same or of opposite sign. Here the product is
    exact.
  \<^item> \<open>r += step\<close> rounds, so the grid rates are not \<open>rate_min + k * step\<close>. Here they are.

  The general theorems of the verification part are therefore statements about what a
  run returns when it returns (an order, a bound, a count from above), which do not turn
  on any of the three; the runs on concrete inputs are runs in exact arithmetic.
\<close>

datatype py_error = ZeroDivisionError | UnboundLocalError

subsection \<open>npv\<close>

text \<open>
  \<^verbatim>\<open>
  def npv(rate, cash_flows):
      total_value = 0.0
      for t in range(len(cash_flows)):
          total_value += cash_flows[t] / ((1 + rate) ** t)
      return total_value
  \<close>
  The loop runs over the index list \<open>[0..<len(cash_flows)]\<close> with the running total as
  accumulator. \<open>x ** 0\<close> is \<open>1.0\<close> in Python also for \<open>x = 0.0\<close>, as \<open>x ^ 0 = 1\<close> in HOL.
\<close>

fun npv_loop :: "real \<Rightarrow> real list \<Rightarrow> nat list \<Rightarrow> real \<Rightarrow> py_error + real" where
  "npv_loop rate cash_flows [] total_value = Inr total_value"
| "npv_loop rate cash_flows (t # ts) total_value =
     (if (1 + rate) ^ t = 0 then Inl ZeroDivisionError
      else npv_loop rate cash_flows ts (total_value + cash_flows ! t / (1 + rate) ^ t))"

definition npv :: "real \<Rightarrow> real list \<Rightarrow> py_error + real" where
  "npv rate cash_flows = npv_loop rate cash_flows [0..<length cash_flows] 0"

subsection \<open>irr_bisection_interval\<close>

text \<open>
  \<^verbatim>\<open>
  def irr_bisection_interval(cash_flows, low, high, tol=1e-6, max_iter=1000):
      npv_low = npv(low, cash_flows)
      npv_high = npv(high, cash_flows)
      if npv_low * npv_high > 0:
          return None
      for x in range(max_iter):
          mid = (low + high) / 2
          npv_mid = npv(mid, cash_flows)
          if abs(npv_mid) < tol:
              return mid
          if npv_low * npv_mid < 0:
              high = mid
              npv_high = npv_mid
          else:
              low = mid
              npv_low = npv_mid
      return mid
  \<close>
  The loop state is the tuple \<open>(low, high, npv_low, npv_high)\<close>. One pass through the loop
  body is \<open>bisect_step\<close>: it raises what \<open>npv\<close> raises, returns the midpoint (\<open>Found\<close>), or
  goes on with the narrowed state (\<open>Narrowed\<close>, which also carries the midpoint just
  computed, the value of the local \<open>mid\<close>). The loop keeps \<open>mid\<close> as an option: it is
  unbound until the first pass, and the final \<open>return mid\<close> raises when it still is.
  The function's result is \<open>Inr None\<close> for Python's \<open>None\<close> and \<open>Inr (Some r)\<close> for a rate.
\<close>

type_synonym bracket = "real \<times> real \<times> real \<times> real"

datatype iteration = Found real | Narrowed real bracket

fun bisect_step :: "real list \<Rightarrow> real \<Rightarrow> bracket \<Rightarrow> py_error + iteration" where
  "bisect_step cash_flows tol (low, high, npv_low, npv_high) =
     (let mid = (low + high) / 2 in
      case npv mid cash_flows of
        Inl e \<Rightarrow> Inl e
      | Inr npv_mid \<Rightarrow>
          if \<bar>npv_mid\<bar> < tol then Inr (Found mid)
          else if npv_low * npv_mid < 0 then Inr (Narrowed mid (low, mid, npv_low, npv_mid))
          else Inr (Narrowed mid (mid, high, npv_mid, npv_high)))"

fun bisect_loop ::
  "real list \<Rightarrow> real \<Rightarrow> nat \<Rightarrow> bracket \<Rightarrow> real option \<Rightarrow> py_error + real option" where
  "bisect_loop cash_flows tol 0 b mid =
     (case mid of None \<Rightarrow> Inl UnboundLocalError | Some m \<Rightarrow> Inr (Some m))"
| "bisect_loop cash_flows tol (Suc n) b mid =
     (case bisect_step cash_flows tol b of
        Inl e \<Rightarrow> Inl e
      | Inr (Found m) \<Rightarrow> Inr (Some m)
      | Inr (Narrowed m b') \<Rightarrow> bisect_loop cash_flows tol n b' (Some m))"

definition irr_bisection_interval ::
  "real list \<Rightarrow> real \<Rightarrow> real \<Rightarrow> real \<Rightarrow> nat \<Rightarrow> py_error + real option" where
  "irr_bisection_interval cash_flows low high tol max_iter =
     (case npv low cash_flows of
        Inl e \<Rightarrow> Inl e
      | Inr npv_low \<Rightarrow>
          (case npv high cash_flows of
             Inl e \<Rightarrow> Inl e
           | Inr npv_high \<Rightarrow>
               if npv_low * npv_high > 0 then Inr None
               else bisect_loop cash_flows tol max_iter (low, high, npv_low, npv_high) None))"

text \<open>The defaults \<open>tol=1e-6\<close> and \<open>max_iter=1000\<close>.\<close>

definition default_tol :: real where
  "default_tol = 1 / 10 ^ 6"

definition default_max_iter :: nat where
  "default_max_iter = 1000"

text \<open>
  The loop state at the start of pass \<open>k\<close> (counted from 0), when the loop gets that far:
  the same \<open>bisect_step\<close> iterated \<open>k\<close> times, \<open>None\<close> once a pass has returned or raised.
\<close>

fun bracket_at :: "real list \<Rightarrow> real \<Rightarrow> nat \<Rightarrow> bracket \<Rightarrow> bracket option" where
  "bracket_at cash_flows tol 0 b = Some b"
| "bracket_at cash_flows tol (Suc k) b =
     (case bisect_step cash_flows tol b of
        Inr (Narrowed m b') \<Rightarrow> bracket_at cash_flows tol k b'
      | _ \<Rightarrow> None)"

subsection \<open>find_all_irrs\<close>

text \<open>
  \<^verbatim>\<open>
  def find_all_irrs(cash_flows, rate_min=-0.99, rate_max=10.0, step=0.001):
      rates = []
      r = rate_min
      while r <= rate_max:
          rates.append(r)
          r += step
      npv_values = [npv(r, cash_flows) for r in rates]
      intervals = []
      for i in range(len(rates) - 1):
          if npv_values[i] * npv_values[i + 1] < 0:
              intervals.append((rates[i], rates[i + 1]))
      irrs = []
      for low, high in intervals:
          irr = irr_bisection_interval(cash_flows, low, high)
          if irr is not None:
              irrs.append(irr)
      return irrs, rates, npv_values
  \<close>
  The \<open>while\<close> loop need not end (a step that is not positive never passes \<open>rate_max\<close>),
  so the grid is a partial function in the option monad: \<open>None\<close> is the run that never
  returns. The three \<open>for\<close> loops are recursions over the list they walk, with the list
  being built as accumulator. \<open>range(len(rates) - 1)\<close> is empty for an empty grid, as
  \<open>[0..<length rates - 1]\<close> is.
\<close>

partial_function (option) rate_grid :: "real \<Rightarrow> real \<Rightarrow> real \<Rightarrow> real list \<Rightarrow> real list option" where
  "rate_grid r rate_max step rates =
     (if r \<le> rate_max then rate_grid (r + step) rate_max step (rates @ [r]) else Some rates)"

fun npv_values_of :: "real list \<Rightarrow> real list \<Rightarrow> py_error + real list" where
  "npv_values_of cash_flows [] = Inr []"
| "npv_values_of cash_flows (r # rs) =
     (case npv r cash_flows of
        Inl e \<Rightarrow> Inl e
      | Inr v \<Rightarrow>
          (case npv_values_of cash_flows rs of
             Inl e \<Rightarrow> Inl e
           | Inr vs \<Rightarrow> Inr (v # vs)))"

fun scan_intervals ::
  "real list \<Rightarrow> real list \<Rightarrow> nat list \<Rightarrow> (real \<times> real) list \<Rightarrow> (real \<times> real) list" where
  "scan_intervals rates npv_values [] intervals = intervals"
| "scan_intervals rates npv_values (i # js) intervals =
     (if npv_values ! i * npv_values ! (i + 1) < 0
      then scan_intervals rates npv_values js (intervals @ [(rates ! i, rates ! (i + 1))])
      else scan_intervals rates npv_values js intervals)"

fun refine_intervals :: "real list \<Rightarrow> (real \<times> real) list \<Rightarrow> real list \<Rightarrow> py_error + real list" where
  "refine_intervals cash_flows [] irrs = Inr irrs"
| "refine_intervals cash_flows ((low, high) # rest) irrs =
     (case irr_bisection_interval cash_flows low high default_tol default_max_iter of
        Inl e \<Rightarrow> Inl e
      | Inr None \<Rightarrow> refine_intervals cash_flows rest irrs
      | Inr (Some irr) \<Rightarrow> refine_intervals cash_flows rest (irrs @ [irr]))"

definition find_all_irrs ::
  "real list \<Rightarrow> real \<Rightarrow> real \<Rightarrow> real \<Rightarrow> (py_error + real list \<times> real list \<times> real list) option" where
  "find_all_irrs cash_flows rate_min rate_max step =
     (case rate_grid rate_min rate_max step [] of
        None \<Rightarrow> None
      | Some rates \<Rightarrow>
          Some (case npv_values_of cash_flows rates of
                  Inl e \<Rightarrow> Inl e
                | Inr npv_values \<Rightarrow>
                    (let intervals = scan_intervals rates npv_values [0..<length rates - 1] []
                     in case refine_intervals cash_flows intervals [] of
                          Inl e \<Rightarrow> Inl e
                        | Inr irrs \<Rightarrow> Inr (irrs, rates, npv_values))))"

text \<open>The defaults \<open>rate_min=-0.99\<close>, \<open>rate_max=10.0\<close> and \<open>step=0.001\<close>.\<close>

definition default_rate_min :: real where
  "default_rate_min = - (99 / 100)"

definition default_rate_max :: real where
  "default_rate_max = 10"

definition default_step :: real where
  "default_step = 1 / 1000"

text \<open>
  The script's only call, \<^verbatim>\<open>irrs, rates, npv_curve = find_all_irrs(cash_flows)\<close>: the
  defaults for the scan range and the step, and the root list of the result.
\<close>

definition found_irrs :: "real list \<Rightarrow> (py_error + real list) option" where
  "found_irrs cash_flows =
     map_option (map_sum id fst)
       (find_all_irrs cash_flows default_rate_min default_rate_max default_step)"

section \<open>GBM path simulator (project1.py)\<close>

text \<open>
  \<^verbatim>\<open>
  Z = rng.normal(0, 1, size=(steps, N))
  S = np.zeros((steps + 1, N))
  S[0] = S0
  for t in range(1, steps + 1):
      S[t] = S[t - 1] * np.exp((mu - 0.5 * sigma**2) * dt + sigma * np.sqrt(dt) * Z[t - 1])
  \<close>
  The grid \<open>S\<close> is a list of rows, each a list of \<open>N\<close> prices. The random shocks \<open>Z\<close> are
  an input of the model: any \<open>steps \<times> N\<close> array of reals. A row assignment replaces the
  row at that index; numpy's elementwise product of two rows is \<open>map2\<close>.
\<close>

fun gbm_fill ::
  "real \<Rightarrow> real \<Rightarrow> real \<Rightarrow> real list list \<Rightarrow> nat list \<Rightarrow> real list list \<Rightarrow> real list list" where
  "gbm_fill mu sigma dt Z [] S = S"
| "gbm_fill mu sigma dt Z (t # ts) S =
     gbm_fill mu sigma dt Z ts
       (S[t := map2 (\<lambda>s z. s * exp ((mu - 0.5 * sigma ^ 2) * dt + sigma * sqrt dt * z))
                 (S ! (t - 1)) (Z ! (t - 1))])"

definition gbm_paths ::
  "real \<Rightarrow> real \<Rightarrow> real \<Rightarrow> real \<Rightarrow> nat \<Rightarrow> nat \<Rightarrow> real list list \<Rightarrow> real list list" where
  "gbm_paths S0 mu sigma dt steps N Z =
     gbm_fill mu sigma dt Z [1..<steps + 1]
       ((replicate (steps + 1) (replicate N 0))[0 := replicate N S0])"

section \<open>Notions used in the statements and proofs\<close>

text \<open>The discounted sum that \<open>npv\<close> is meant to compute.\<close>

definition discounted_sum :: "real list \<Rightarrow> real \<Rightarrow> real" where
  "discounted_sum c r = (\<Sum>t<length c. c ! t / (1 + r) ^ t)"

text \<open>
  The rate grid in closed form: how many rates the \<open>while\<close> loop appends for a positive
  step, and the rates themselves.
\<close>

definition grid_size :: "real \<Rightarrow> real \<Rightarrow> real \<Rightarrow> nat" where
  "grid_size r rate_max step = (if r \<le> rate_max then nat \<lfloor>(rate_max - r) / step\<rfloor> + 1 else 0)"

definition grid :: "real \<Rightarrow> real \<Rightarrow> real \<Rightarrow> real list" where
  "grid r rate_max step = map (\<lambda>k. r + real k * step) [0..<grid_size r rate_max step]"

text \<open>The endpoints of a list of brackets, in list order.\<close>

definition flat :: "(real \<times> real) list \<Rightarrow> real list" where
  "flat ivs = concat (map (\<lambda>(l, h). [l, h]) ivs)"

text \<open>The grid indices at which the scan of \<open>find_all_irrs\<close> records a bracket.\<close>

definition sign_changes :: "real list \<Rightarrow> nat list" where
  "sign_changes vals = filter (\<lambda>i. vals ! i * vals ! (i + 1) < 0) [0..<length vals - 1]"

text \<open>One row of the price grid from the row before it and that step's shocks.\<close>

definition gbm_row :: "real \<Rightarrow> real \<Rightarrow> real \<Rightarrow> real list \<Rightarrow> real list \<Rightarrow> real list" where
  "gbm_row mu sigma dt prev z =
     map2 (\<lambda>s z. s * exp ((mu - 0.5 * sigma ^ 2) * dt + sigma * sqrt dt * z)) prev z"

text \<open>
  The run of \<open>irr_bisection_interval([-1, 1], 0, 1)\<close>: the lower endpoint after \<open>k\<close>
  passes, and the loop state there.
\<close>

definition stuck_low :: "nat \<Rightarrow> real" where
  "stuck_low k = 1 - 1 / 2 ^ k"

definition stuck_bracket :: "nat \<Rightarrow> bracket" where
  "stuck_bracket k = (stuck_low k, 1, - 1 + 1 / (1 + stuck_low k), - 1 / 2)"

section \<open>Verification\<close>

subsection \<open>Properties of npv\<close>

lemma npv_loop_sum:
  assumes "rate \<noteq> -1"
  shows "npv_loop rate c ts acc = Inr (acc + (\<Sum>t\<leftarrow>ts. c ! t / (1 + rate) ^ t))"
  using assms
proof (induction ts arbitrary: acc)
  case Nil
  show ?case by simp
next
  case (Cons t ts)
  from Cons.prems have "1 + rate \<noteq> 0" by linarith
  then have nz: "(1 + rate) ^ t \<noteq> 0" by simp
  show ?case
    using nz Cons.IH [OF Cons.prems] by (simp add: add.assoc)
qed

lemma npv_eq_sum_list:
  "rate \<noteq> -1 \<Longrightarrow> npv rate c = Inr (\<Sum>t\<leftarrow>[0..<length c]. c ! t / (1 + rate) ^ t)"
  by (simp add: npv_def npv_loop_sum)

lemma npv2: "npv r [a, b] = (if 1 + r = 0 then Inl ZeroDivisionError else Inr (a + b / (1 + r)))"
  by (simp add: npv_def upt_conv_Cons)

lemma npv3: "npv r [a, b, c] =
  (if 1 + r = 0 then Inl ZeroDivisionError else Inr (a + b / (1 + r) + c / (1 + r) ^ 2))"
  by (simp add: npv_def upt_conv_Cons power2_eq_square)

lemma npv_discounted: "r \<noteq> -1 \<Longrightarrow> npv r c = Inr (discounted_sum c r)"
  by (simp add: npv_eq_sum_list discounted_sum_def interv_sum_list_conv_sum_set_nat atLeast0LessThan)

lemma discounted_sum_Cons:
  "discounted_sum (c0 # rest) r = c0 + (\<Sum>t<length rest. rest ! t / (1 + r) ^ Suc t)"
proof -
  have "discounted_sum (c0 # rest) r = (\<Sum>t<Suc (length rest). (c0 # rest) ! t / (1 + r) ^ t)"
    by (simp add: discounted_sum_def)
  also have "\<dots> = (c0 # rest) ! 0 / (1 + r) ^ 0 + (\<Sum>t<length rest. (c0 # rest) ! Suc t / (1 + r) ^ Suc t)"
    by (rule sum.lessThan_Suc_shift)
  finally show ?thesis by simp
qed

lemma discounted_sum2: "discounted_sum [a, b] r = a + b / (1 + r)"
  by (simp add: discounted_sum_Cons)

lemma discounted_sum_nonneg:
  assumes "-1 < r" "\<forall>x\<in>set c. 0 < x"
  shows "0 \<le> discounted_sum c r"
  unfolding discounted_sum_def
proof (rule sum_nonneg)
  fix t assume "t \<in> {..<length c}"
  then have "0 < c ! t" using assms(2) by simp
  moreover have "0 < (1 + r) ^ t" using assms(1) by simp
  ultimately show "0 \<le> c ! t / (1 + r) ^ t" by simp
qed

lemma discounted_sum_nonpos:
  assumes "-1 < r" "\<forall>x\<in>set c. x < 0"
  shows "discounted_sum c r \<le> 0"
  unfolding discounted_sum_def
proof (rule sum_nonpos)
  fix t assume "t \<in> {..<length c}"
  then have "c ! t < 0" using assms(2) by simp
  moreover have "0 < (1 + r) ^ t" using assms(1) by simp
  ultimately show "c ! t / (1 + r) ^ t \<le> 0" by (simp add: divide_nonpos_pos)
qed

text \<open>
  With a first entry and positive later entries the discounted sum falls strictly as the
  rate rises above \<open>-1\<close>.
\<close>

lemma discounted_sum_strict_antimono:
  assumes "rest \<noteq> []" "\<forall>x\<in>set rest. 0 < x" "-1 < r" "r < s"
  shows "discounted_sum (c0 # rest) s < discounted_sum (c0 # rest) r"
proof -
  have "(\<Sum>t<length rest. rest ! t / (1 + s) ^ Suc t) < (\<Sum>t<length rest. rest ! t / (1 + r) ^ Suc t)"
  proof (rule sum_strict_mono)
    show "finite {..<length rest}" by simp
    show "{..<length rest} \<noteq> {}" using assms(1) by (simp add: lessThan_empty_iff)
    fix t assume "t \<in> {..<length rest}"
    then have c: "0 < rest ! t" using assms(2) by simp
    have p: "(1 + r) ^ Suc t < (1 + s) ^ Suc t"
      using assms(3,4) by (intro power_strict_mono) simp_all
    have "0 < (1 + r) ^ Suc t" using assms(3) by simp
    with p c show "rest ! t / (1 + s) ^ Suc t < rest ! t / (1 + r) ^ Suc t"
      by (simp add: frac_less2)
  qed
  then show ?thesis by (simp add: discounted_sum_Cons)
qed

subsection \<open>Properties of irr_bisection_interval\<close>

lemma bisect_step_cases:
  assumes "bisect_step cf tol (lo, hi, nl, nh) = Inr it"
  obtains v where "npv ((lo + hi) / 2) cf = Inr v" "\<bar>v\<bar> < tol" "it = Found ((lo + hi) / 2)"
  | v where "npv ((lo + hi) / 2) cf = Inr v" "\<not> \<bar>v\<bar> < tol" "nl * v < 0"
      "it = Narrowed ((lo + hi) / 2) (lo, (lo + hi) / 2, nl, v)"
  | v where "npv ((lo + hi) / 2) cf = Inr v" "\<not> \<bar>v\<bar> < tol" "\<not> nl * v < 0"
      "it = Narrowed ((lo + hi) / 2) ((lo + hi) / 2, hi, v, nh)"
  using assms by (auto simp: Let_def split: sum.splits if_splits)

lemma bisect_loop_within:
  "bisect_loop cf tol n (lo, hi, nl, nh) mid = Inr (Some r) \<Longrightarrow> lo \<le> hi \<Longrightarrow>
     (lo \<le> r \<and> r \<le> hi) \<or> mid = Some r"
proof (induction n arbitrary: lo hi nl nh mid)
  case 0
  then show ?case by (auto split: option.splits)
next
  case (Suc n)
  from Suc.prems(1) obtain it where st: "bisect_step cf tol (lo, hi, nl, nh) = Inr it"
    by (auto split: sum.splits)
  let ?m = "(lo + hi) / 2"
  have m: "lo \<le> ?m" "?m \<le> hi" using Suc.prems(2) by simp_all
  from st show ?case
  proof (cases rule: bisect_step_cases)
    case (1 v)
    with Suc.prems(1) st have "r = ?m" by simp
    with m show ?thesis by simp
  next
    case (2 v)
    with Suc.prems(1) st have "bisect_loop cf tol n (lo, ?m, nl, v) (Some ?m) = Inr (Some r)" by simp
    from Suc.IH [OF this m(1)] m show ?thesis by auto
  next
    case (3 v)
    with Suc.prems(1) st have "bisect_loop cf tol n (?m, hi, v, nh) (Some ?m) = Inr (Some r)" by simp
    from Suc.IH [OF this m(2)] m show ?thesis by auto
  qed
qed

lemma irr_bisection_within:
  "irr_bisection_interval cf low high tol max_iter = Inr (Some r) \<Longrightarrow> low \<le> high \<Longrightarrow>
     low \<le> r \<and> r \<le> high"
  unfolding irr_bisection_interval_def
  by (auto split: sum.splits if_splits dest: bisect_loop_within)

lemma bisect_loop_exhausted:
  assumes "0 < n"
    and "\<forall>k<n. \<forall>lo hi nl nh. bracket_at cf tol k b = Some (lo, hi, nl, nh) \<longrightarrow>
           (\<exists>v. npv ((lo + hi) / 2) cf = Inr v \<and> \<not> \<bar>v\<bar> < tol)"
  shows "\<exists>lo hi nl nh. bracket_at cf tol (n - 1) b = Some (lo, hi, nl, nh) \<and>
           bisect_loop cf tol n b mid = Inr (Some ((lo + hi) / 2))"
  using assms
proof (induction n arbitrary: b mid)
  case 0
  then show ?case by simp
next
  case (Suc n)
  obtain lo hi nl nh where b: "b = (lo, hi, nl, nh)" by (cases b) auto
  from Suc.prems(2) b obtain v where v: "npv ((lo + hi) / 2) cf = Inr v" "\<not> \<bar>v\<bar> < tol"
    by fastforce
  define b' where "b' = (if nl * v < 0 then (lo, (lo + hi) / 2, nl, v) else ((lo + hi) / 2, hi, v, nh))"
  have step: "bisect_step cf tol b = Inr (Narrowed ((lo + hi) / 2) b')"
    using v by (simp add: b b'_def Let_def)
  show ?case
  proof (cases n)
    case 0
    then show ?thesis using step b by simp
  next
    case (Suc m)
    have hyp: "\<forall>k<n. \<forall>lo hi nl nh. bracket_at cf tol k b' = Some (lo, hi, nl, nh) \<longrightarrow>
           (\<exists>v. npv ((lo + hi) / 2) cf = Inr v \<and> \<not> \<bar>v\<bar> < tol)"
    proof (intro allI impI)
      fix k lo hi nl nh
      assume "k < n" and "bracket_at cf tol k b' = Some (lo, hi, nl, nh)"
      then have "Suc k < Suc n" and "bracket_at cf tol (Suc k) b = Some (lo, hi, nl, nh)"
        using step by simp_all
      with Suc.prems(2) show "\<exists>v. npv ((lo + hi) / 2) cf = Inr v \<and> \<not> \<bar>v\<bar> < tol"
        by blast
    qed
    have "0 < n" using Suc by simp
    from Suc.IH [OF this hyp, of "Some ((lo + hi) / 2)"]
    show ?thesis using step Suc by simp
  qed
qed

lemma bisect_loop_returns:
  "-1 < lo \<Longrightarrow> lo \<le> hi \<Longrightarrow> 0 < n \<or> mid \<noteq> None \<Longrightarrow>
     \<exists>r. bisect_loop c tol n (lo, hi, nl, nh) mid = Inr (Some r)"
proof (induction n arbitrary: lo hi nl nh mid)
  case 0
  then show ?case by auto
next
  case (Suc n)
  let ?m = "(lo + hi) / 2"
  have m: "-1 < ?m" "lo \<le> ?m" "?m \<le> hi" using Suc.prems(1,2) by simp_all
  then have v: "npv ?m c = Inr (discounted_sum c ?m)" by (simp add: npv_discounted)
  let ?v = "discounted_sum c ?m"
  consider "\<bar>?v\<bar> < tol" | "\<not> \<bar>?v\<bar> < tol" "nl * ?v < 0" | "\<not> \<bar>?v\<bar> < tol" "\<not> nl * ?v < 0"
    by blast
  then show ?case
  proof cases
    case 1
    then have "bisect_loop c tol (Suc n) (lo, hi, nl, nh) mid = Inr (Some ?m)"
      using v by (simp add: Let_def)
    then show ?thesis by blast
  next
    case 2
    then have "bisect_loop c tol (Suc n) (lo, hi, nl, nh) mid =
        bisect_loop c tol n (lo, ?m, nl, ?v) (Some ?m)"
      using v by (simp add: Let_def)
    with Suc.IH [OF Suc.prems(1) m(2), of "Some ?m" nl ?v] show ?thesis by simp
  next
    case 3
    then have "bisect_loop c tol (Suc n) (lo, hi, nl, nh) mid =
        bisect_loop c tol n (?m, hi, ?v, nh) (Some ?m)"
      using v by (simp add: Let_def)
    with Suc.IH [OF m(1) m(3), of "Some ?m" ?v nh] show ?thesis by simp
  qed
qed

lemma irr_bisection_returns:
  assumes "-1 < low" "low \<le> high" "0 < max_iter"
  shows "\<exists>res. irr_bisection_interval c low high tol max_iter = Inr res"
    and "discounted_sum c low * discounted_sum c high < 0 \<Longrightarrow>
           \<exists>r. irr_bisection_interval c low high tol max_iter = Inr (Some r)"
proof -
  have l: "npv low c = Inr (discounted_sum c low)" and h: "npv high c = Inr (discounted_sum c high)"
    using assms(1,2) by (simp_all add: npv_discounted)
  from bisect_loop_returns [OF assms(1,2), of max_iter None c tol "discounted_sum c low" "discounted_sum c high"]
  obtain r where r: "bisect_loop c tol max_iter (low, high, discounted_sum c low, discounted_sum c high) None
      = Inr (Some r)"
    using assms(3) by blast
  show "\<exists>res. irr_bisection_interval c low high tol max_iter = Inr res"
    using l h r by (simp add: irr_bisection_interval_def)
  show "discounted_sum c low * discounted_sum c high < 0 \<Longrightarrow>
           \<exists>r. irr_bisection_interval c low high tol max_iter = Inr (Some r)"
    using l h r by (simp add: irr_bisection_interval_def)
qed

lemma bisect_loop_not_None: "bisect_loop c tol n b mid \<noteq> Inr None"
proof (induction n arbitrary: b mid)
  case 0
  show ?case by (simp split: option.splits)
next
  case (Suc n)
  show ?case
  proof (cases "bisect_step c tol b")
    case (Inl e)
    then show ?thesis by simp
  next
    case (Inr it)
    then show ?thesis using Suc.IH by (cases it) simp_all
  qed
qed

text \<open>
  X2. \<open>irr_bisection_interval\<close> returns \<open>None\<close> only from its guard: the NPVs at both
  endpoints are then nonzero and of the same sign.
\<close>

theorem None_only_without_sign_change:
  assumes "irr_bisection_interval c low high tol max_iter = Inr None"
  shows "\<exists>a b. npv low c = Inr a \<and> npv high c = Inr b \<and> (0 < a \<and> 0 < b \<or> a < 0 \<and> b < 0)"
proof -
  from assms obtain a b where ab: "npv low c = Inr a" "npv high c = Inr b"
    by (auto simp: irr_bisection_interval_def split: sum.splits)
  with assms have "0 < a * b"
    using bisect_loop_not_None [of c tol max_iter "(low, high, a, b)" None]
    by (auto simp: irr_bisection_interval_def split: if_splits)
  then have "0 < a \<and> 0 < b \<or> a < 0 \<and> b < 0" by (simp add: zero_less_mult_iff)
  with ab show ?thesis by blast
qed

theorem None_only_without_sign_change_witness:
  "irr_bisection_interval [1] 0 1 default_tol default_max_iter = Inr None \<and>
   (\<exists>a b. npv 0 [1] = Inr a \<and> npv 1 [1] = Inr b \<and> (0 < a \<and> 0 < b \<or> a < 0 \<and> b < 0))"
proof -
  have n: "irr_bisection_interval [1] 0 1 default_tol default_max_iter = Inr None"
    by (simp add: irr_bisection_interval_def npv_def)
  from None_only_without_sign_change [OF n] n show ?thesis by blast
qed

text \<open>
  In exact arithmetic, on a bracket whose endpoint NPVs are strictly opposite in sign and
  with a positive tolerance, every pass starts with the cached values being the NPVs of
  the current endpoints and strictly opposite in sign.
\<close>

theorem bracket_at_strict:
  assumes "0 < tol"
  shows "npv lo c = Inr nl \<Longrightarrow> npv hi c = Inr nh \<Longrightarrow> nl * nh < 0 \<Longrightarrow>
     bracket_at c tol k (lo, hi, nl, nh) = Some (lo', hi', nl', nh') \<Longrightarrow>
     npv lo' c = Inr nl' \<and> npv hi' c = Inr nh' \<and> nl' * nh' < 0"
proof (induction k arbitrary: lo hi nl nh)
  case 0
  then show ?case by simp
next
  case (Suc k)
  from Suc.prems(4) obtain m b' where
    st: "bisect_step c tol (lo, hi, nl, nh) = Inr (Narrowed m b')"
    and at: "bracket_at c tol k b' = Some (lo', hi', nl', nh')"
    by (auto split: sum.splits iteration.splits)
  from st show ?case
  proof (cases rule: bisect_step_cases)
    case (1 v)
    then show ?thesis by simp
  next
    case (2 v)
    with at have "bracket_at c tol k (lo, (lo + hi) / 2, nl, v) = Some (lo', hi', nl', nh')"
      by simp
    from Suc.IH [OF Suc.prems(1) 2(1) 2(3) this] show ?thesis .
  next
    case (3 v)
    from 3(2) assms have "v \<noteq> 0" by auto
    moreover from Suc.prems(3) have "nl \<noteq> 0" by auto
    ultimately have "0 < nl * v" using 3(3) by (simp add: not_less order_less_le)
    with Suc.prems(3) have "v * nh < 0"
      by (auto simp: zero_less_mult_iff mult_less_0_iff)
    moreover from 3(4) at
    have "bracket_at c tol k ((lo + hi) / 2, hi, v, nh) = Some (lo', hi', nl', nh')" by simp
    ultimately show ?thesis using Suc.IH [OF 3(1) Suc.prems(2)] by blast
  qed
qed

theorem bracket_at_strict_witness:
  "bracket_at [-1, 4] default_tol 1 (1, 7, 1, - (1 / 2)) = Some (1, 4, 1, - (1 / 5)) \<and>
   npv 1 [-1, 4] = Inr 1 \<and> npv 4 [-1, 4] = Inr (- (1 / 5)) \<and> (1::real) * - (1 / 5) < 0"
proof -
  have t: "0 < default_tol" by (simp add: default_tol_def)
  have e: "npv 1 [-1, 4] = Inr 1" "npv 7 [-1, 4] = Inr (- (1 / 2))" "(1::real) * - (1 / 2) < 0"
    by (simp_all add: npv2)
  have b: "bracket_at [-1, 4] default_tol 1 (1, 7, 1, - (1 / 2)) = Some (1, 4, 1, - (1 / 5))"
    by (simp add: npv2 default_tol_def Let_def)
  from bracket_at_strict [OF t e b] b show ?thesis by simp
qed

text \<open>The run on \<open>[-1, 1]\<close> over \<open>[0, 1]\<close>, whose lower endpoint is the root.\<close>

lemma stuck_low_step: "(stuck_low k + 1) / 2 = stuck_low (Suc k)"
  by (simp add: stuck_low_def field_simps)

lemma stuck_low_bounds: "0 \<le> stuck_low k" "stuck_low k < 1"
  by (simp_all add: stuck_low_def field_simps)

lemma stuck_npv_le: "1 / 2 \<le> x \<Longrightarrow> - 1 + 1 / (1 + x) \<le> - (1 / 3 :: real)"
  by (simp add: field_simps)

lemma stuck_bracket_0: "stuck_bracket 0 = (0, 1, 0, - 1 / 2)"
  by (simp add: stuck_bracket_def stuck_low_def)

lemma stuck_step:
  "bisect_step [-1, 1] default_tol (stuck_bracket k) =
     Inr (Narrowed (stuck_low (Suc k)) (stuck_bracket (Suc k)))"
proof -
  let ?m = "stuck_low (Suc k)"
  let ?v = "- 1 + 1 / (1 + ?m)"
  let ?nl = "- 1 + 1 / (1 + stuck_low k)"
  have half: "1 / 2 \<le> ?m" by (simp add: stuck_low_def field_simps)
  have m: "1 + ?m \<noteq> 0" using stuck_low_bounds(1) [of "Suc k"] by linarith
  have v: "?v \<le> - (1 / 3)" using half by (rule stuck_npv_le)
  have nl: "?nl \<le> 0"
    using stuck_low_bounds(1) [of k] by (simp add: field_simps)
  have tol: "\<not> \<bar>?v\<bar> < default_tol"
    using v by (simp add: default_tol_def)
  have prod: "\<not> ?nl * ?v < 0"
    using nl v by (simp add: mult_less_0_iff not_less)
  have npv_m: "npv ?m [-1, 1] = Inr ?v" using m by (simp add: npv2)
  have "bisect_step [-1, 1] default_tol (stuck_low k, 1, ?nl, - 1 / 2) =
          Inr (Narrowed ?m (?m, 1, ?v, - 1 / 2))"
    unfolding bisect_step.simps stuck_low_step Let_def npv_m
    using tol prod by (simp only: sum.case if_False)
  then show ?thesis by (simp only: stuck_bracket_def)
qed

lemma stuck_bracket_at:
  "bracket_at [-1, 1] default_tol k (stuck_bracket j) = Some (stuck_bracket (j + k))"
proof (induction k arbitrary: j)
  case 0
  show ?case by simp
next
  case (Suc k)
  show ?case using Suc.IH [of "Suc j"] by (simp add: stuck_step)
qed

lemma stuck_mid_npv:
  "\<exists>v. npv (stuck_low (Suc k)) [-1, 1] = Inr v \<and> \<not> \<bar>v\<bar> < default_tol"
proof -
  let ?m = "stuck_low (Suc k)"
  have half: "1 / 2 \<le> ?m" by (simp add: stuck_low_def field_simps)
  have m: "1 + ?m \<noteq> 0" using stuck_low_bounds(1) [of "Suc k"] by linarith
  have "- 1 + 1 / (1 + ?m) \<le> - (1 / 3)" using half by (rule stuck_npv_le)
  then have "\<not> \<bar>- 1 + 1 / (1 + ?m)\<bar> < default_tol" by (simp add: default_tol_def)
  moreover have "npv ?m [-1, 1] = Inr (- 1 + 1 / (1 + ?m))" using m by (simp add: npv2)
  ultimately show ?thesis by blast
qed

lemma stuck_never_within_tol:
  "\<forall>k<n. \<forall>lo hi nl nh.
     bracket_at [-1, 1] default_tol k (0, 1, 0, - 1 / 2) = Some (lo, hi, nl, nh) \<longrightarrow>
     (\<exists>v. npv ((lo + hi) / 2) [-1, 1] = Inr v \<and> \<not> \<bar>v\<bar> < default_tol)"
proof (intro allI impI)
  fix k lo hi nl nh
  assume "bracket_at [-1, 1] default_tol k (0, 1, 0, - 1 / 2) = Some (lo, hi, nl, nh)"
  then have "stuck_bracket k = (lo, hi, nl, nh)"
    using stuck_bracket_at [of k 0] by (simp add: stuck_bracket_0)
  then have "lo = stuck_low k" and "hi = 1" by (simp_all add: stuck_bracket_def)
  then have "(lo + hi) / 2 = stuck_low (Suc k)" by (simp add: stuck_low_step)
  then show "\<exists>v. npv ((lo + hi) / 2) [-1, 1] = Inr v \<and> \<not> \<bar>v\<bar> < default_tol"
    using stuck_mid_npv [of k] by simp
qed

lemma stuck_endpoints: "npv 0 [-1, 1] = Inr 0" "npv 1 [-1, 1] = Inr (- 1 / 2)"
  by (simp_all add: npv2)

lemma stuck_result:
  "irr_bisection_interval [-1, 1] 0 1 default_tol default_max_iter = Inr (Some (1 - 1 / 2 ^ 1000))"
proof -
  have "0 < default_max_iter" by (simp add: default_max_iter_def)
  from bisect_loop_exhausted [OF this stuck_never_within_tol, of None]
  obtain lo hi nl nh where
    b: "bracket_at [-1, 1] default_tol (default_max_iter - 1) (0, 1, 0, - 1 / 2) = Some (lo, hi, nl, nh)"
    and r: "bisect_loop [-1, 1] default_tol default_max_iter (0, 1, 0, - 1 / 2) None
              = Inr (Some ((lo + hi) / 2))"
    by blast
  from b have "stuck_bracket 999 = (lo, hi, nl, nh)"
    using stuck_bracket_at [of 999 0] by (simp add: stuck_bracket_0 default_max_iter_def)
  then have "lo = stuck_low 999" and "hi = 1" by (simp_all add: stuck_bracket_def)
  then have "(lo + hi) / 2 = stuck_low (Suc 999)" by (simp add: stuck_low_step)
  also have "\<dots> = 1 - 1 / 2 ^ 1000" by (simp add: stuck_low_def)
  finally show ?thesis using r by (simp add: irr_bisection_interval_def stuck_endpoints)
qed

text \<open>
  C4. During every run of \<open>irr_bisection_interval\<close> that enters the loop, at the start of
  every pass the NPVs at the two current endpoints have opposite signs, or one of them is
  the root already found. The run on \<open>[-1, 1]\<close> over \<open>[0, 1]\<close> breaks this: the lower
  endpoint is the root (NPV 0), the first pass moves it to the midpoint \<open>1/2\<close>, and the
  second pass starts with NPVs \<open>-1/3\<close> and \<open>-1/2\<close> at its endpoints. The run then uses
  up its 1000 passes and returns \<open>1 - 1/2^1000\<close>, where the NPV is near \<open>-1/2\<close>.
\<close>

theorem root_at_low_loses_bracket:
  "npv 0 [-1, 1] = Inr 0 \<and> npv 1 [-1, 1] = Inr (- 1 / 2) \<and>
   bracket_at [-1, 1] default_tol 1 (0, 1, 0, - 1 / 2) = Some (1 / 2, 1, - 1 / 3, - 1 / 2) \<and>
   npv (1 / 2) [-1, 1] = Inr (- 1 / 3) \<and>
   irr_bisection_interval [-1, 1] 0 1 default_tol default_max_iter
     = Inr (Some (1 - 1 / 2 ^ 1000))"
proof -
  have "bracket_at [-1, 1] default_tol 1 (0, 1, 0, - 1 / 2) = Some (1 / 2, 1, - 1 / 3, - 1 / 2)"
    by (simp add: npv2 Let_def default_tol_def)
  moreover have "npv (1 / 2) [-1, 1] = Inr (- 1 / 3)" by (simp add: npv2)
  ultimately show ?thesis using stuck_endpoints stuck_result by simp
qed

text \<open>
  C5. For every cash-flow sequence and bracketing interval, if \<open>irr_bisection_interval\<close>
  uses up its maximum iteration count without any midpoint NPV falling below the
  tolerance, it returns the last computed midpoint as a rate (not \<open>None\<close>, and not an
  exception). The midpoint returned is that of the state at the start of the last pass.
\<close>

theorem exhausted_returns_last_midpoint:
  assumes "0 < max_iter"
    and "npv low c = Inr a" and "npv high c = Inr b" and "\<not> 0 < a * b"
    and "\<forall>k<max_iter. \<forall>lo hi nl nh.
           bracket_at c tol k (low, high, a, b) = Some (lo, hi, nl, nh) \<longrightarrow>
           (\<exists>v. npv ((lo + hi) / 2) c = Inr v \<and> \<not> \<bar>v\<bar> < tol)"
  shows "\<exists>lo hi nl nh.
           bracket_at c tol (max_iter - 1) (low, high, a, b) = Some (lo, hi, nl, nh) \<and>
           irr_bisection_interval c low high tol max_iter = Inr (Some ((lo + hi) / 2))"
  using bisect_loop_exhausted [OF assms(1) assms(5), of None] assms(2,3,4)
  by (simp add: irr_bisection_interval_def)

theorem exhausted_returns_last_midpoint_witness:
  "\<exists>lo hi nl nh.
     bracket_at [-1, 1] default_tol (default_max_iter - 1) (0, 1, 0, - 1 / 2)
       = Some (lo, hi, nl, nh) \<and>
     irr_bisection_interval [-1, 1] 0 1 default_tol default_max_iter = Inr (Some ((lo + hi) / 2))"
proof (rule exhausted_returns_last_midpoint)
  show "0 < default_max_iter" by (simp add: default_max_iter_def)
  show "npv 0 [-1, 1] = Inr 0" by (rule stuck_endpoints)
  show "npv 1 [-1, 1] = Inr (- 1 / 2)" by (rule stuck_endpoints)
  show "\<not> 0 < (0::real) * (- 1 / 2)" by simp
  show "\<forall>k<default_max_iter. \<forall>lo hi nl nh.
       bracket_at [-1, 1] default_tol k (0, 1, 0, - 1 / 2) = Some (lo, hi, nl, nh) \<longrightarrow>
       (\<exists>v. npv ((lo + hi) / 2) [-1, 1] = Inr v \<and> \<not> \<bar>v\<bar> < default_tol)"
    by (rule stuck_never_within_tol)
qed

subsection \<open>The rate grid\<close>

text \<open>
  The \<open>while\<close> loop returns only for a positive step or an empty range; for a positive
  step it returns the closed form \<open>grid\<close>.
\<close>

lemma rate_grid_Some_cases:
  assumes "rate_grid r rate_max step acc = Some rs"
  shows "0 < step \<or> rate_max < r"
proof (rule rate_grid.raw_induct
    [where P = "\<lambda>r rate_max step acc rs. 0 < step \<or> rate_max < r", OF _ assms])
  fix f :: "real \<Rightarrow> real \<Rightarrow> real \<Rightarrow> real list \<Rightarrow> real list option"
    and r rate_max step :: real and rates ra :: "real list"
  assume IH: "\<And>r rate_max step rates y.
      f r rate_max step rates = Some y \<Longrightarrow> 0 < step \<or> rate_max < r"
    and eq: "(if r \<le> rate_max then f (r + step) rate_max step (rates @ [r]) else Some rates)
      = Some ra"
  show "0 < step \<or> rate_max < r"
  proof (cases "r \<le> rate_max")
    case True
    with eq have "f (r + step) rate_max step (rates @ [r]) = Some ra" by simp
    from IH [OF this] True show ?thesis by auto
  next
    case False
    then show ?thesis by simp
  qed
qed

lemma rate_grid_closed:
  assumes "0 < step"
  shows "rate_max < r + real n * step \<Longrightarrow> (\<forall>k<n. r + real k * step \<le> rate_max) \<Longrightarrow>
     rate_grid r rate_max step acc = Some (acc @ map (\<lambda>k. r + real k * step) [0..<n])"
proof (induction n arbitrary: r acc)
  case 0
  then show ?case by (simp add: rate_grid.simps)
next
  case (Suc n)
  from Suc.prems(2) have le: "r \<le> rate_max" by force
  have a: "rate_max < (r + step) + real n * step"
    using Suc.prems(1) by (simp add: algebra_simps)
  have b: "\<forall>k<n. (r + step) + real k * step \<le> rate_max"
  proof (intro allI impI)
    fix k assume "k < n"
    then have "Suc k < Suc n" by simp
    with Suc.prems(2) have "r + real (Suc k) * step \<le> rate_max" by blast
    then show "(r + step) + real k * step \<le> rate_max" by (simp add: algebra_simps)
  qed
  have shift: "map (\<lambda>k. r + real k * step) [0..<Suc n] =
                 r # map (\<lambda>k. (r + step) + real k * step) [0..<n]"
    by (simp add: upt_conv_Cons map_Suc_upt [symmetric] algebra_simps del: upt_Suc)
  have "rate_grid r rate_max step acc = rate_grid (r + step) rate_max step (acc @ [r])"
    using le by (subst rate_grid.simps) simp
  also have "\<dots> = Some ((acc @ [r]) @ map (\<lambda>k. (r + step) + real k * step) [0..<n])"
    by (rule Suc.IH [OF a b])
  finally show ?case by (simp only: shift append_assoc append_Cons append_Nil)
qed

lemma grid_size_bounds:
  assumes "0 < step"
  shows "rate_max < r + real (grid_size r rate_max step) * step"
    and "\<forall>k<grid_size r rate_max step. r + real k * step \<le> rate_max"
proof -
  show "rate_max < r + real (grid_size r rate_max step) * step"
  proof (cases "r \<le> rate_max")
    case True
    let ?q = "(rate_max - r) / step"
    have q0: "0 \<le> ?q" using True assms by simp
    then have "0 \<le> \<lfloor>?q\<rfloor>" by simp
    then have "real (nat \<lfloor>?q\<rfloor> + 1) = of_int \<lfloor>?q\<rfloor> + 1" by simp
    moreover have "?q < of_int \<lfloor>?q\<rfloor> + 1" by linarith
    moreover have "grid_size r rate_max step = nat \<lfloor>?q\<rfloor> + 1"
      using True by (simp add: grid_size_def)
    ultimately have "?q < real (grid_size r rate_max step)"
      by linarith
    then have "rate_max - r < real (grid_size r rate_max step) * step"
      using assms by (simp add: pos_divide_less_eq)
    then show ?thesis by linarith
  next
    case False
    then show ?thesis by (simp add: grid_size_def)
  qed
  show "\<forall>k<grid_size r rate_max step. r + real k * step \<le> rate_max"
  proof (intro allI impI)
    fix k assume k: "k < grid_size r rate_max step"
    then have le: "r \<le> rate_max" by (simp add: grid_size_def split: if_splits)
    let ?q = "(rate_max - r) / step"
    have q0: "0 \<le> ?q" using le assms by simp
    from k le have "k \<le> nat \<lfloor>?q\<rfloor>" by (simp add: grid_size_def)
    then have "real k \<le> real (nat \<lfloor>?q\<rfloor>)" by simp
    also have "\<dots> = of_int \<lfloor>?q\<rfloor>" using q0 by simp
    also have "\<dots> \<le> ?q" by simp
    finally have "real k * step \<le> rate_max - r"
      using assms by (simp add: pos_le_divide_eq)
    then show "r + real k * step \<le> rate_max" by linarith
  qed
qed

lemma rate_grid_eq_grid:
  assumes "rate_grid r rate_max step [] = Some rates"
  shows "rates = grid r rate_max step" and "rates \<noteq> [] \<Longrightarrow> 0 < step"
proof -
  from rate_grid_Some_cases [OF assms] consider "0 < step" | "\<not> 0 < step" "rate_max < r" by blast
  then have "rates = grid r rate_max step \<and> (rates \<noteq> [] \<longrightarrow> 0 < step)"
  proof cases
    case 1
    have "rate_grid r rate_max step [] = Some ([] @ grid r rate_max step)"
      unfolding grid_def by (rule rate_grid_closed [OF 1 grid_size_bounds [OF 1]])
    with assms 1 show ?thesis by simp
  next
    case 2
    then have "rate_grid r rate_max step [] = Some []" by (subst rate_grid.simps) simp
    with assms 2 show ?thesis by (simp add: grid_def grid_size_def)
  qed
  then show "rates = grid r rate_max step" and "rates \<noteq> [] \<Longrightarrow> 0 < step" by simp_all
qed

lemma rate_grid_terminates:
  "0 < step \<Longrightarrow> rate_grid r rate_max step [] = Some (grid r rate_max step)"
proof -
  assume 1: "0 < step"
  have "rate_grid r rate_max step [] = Some ([] @ grid r rate_max step)"
    unfolding grid_def by (rule rate_grid_closed [OF 1 grid_size_bounds [OF 1]])
  then show ?thesis by simp
qed

lemma grid_nth: "k < grid_size r rate_max step \<Longrightarrow> grid r rate_max step ! k = r + real k * step"
  by (simp add: grid_def)

lemma length_grid: "length (grid r rate_max step) = grid_size r rate_max step"
  by (simp add: grid_def)

lemma grid_bounds:
  assumes "0 < step" "x \<in> set (grid r rate_max step)"
  shows "r \<le> x" and "x \<le> rate_max"
proof -
  from assms(2) obtain k where k: "k < grid_size r rate_max step" "x = r + real k * step"
    by (auto simp: grid_def)
  show "x \<le> rate_max" using grid_size_bounds(2) [OF assms(1)] k by blast
  show "r \<le> x" using k(2) assms(1) by simp
qed

lemma grid_strict_mono:
  assumes "0 < step" "i < j" "j < grid_size r rate_max step"
  shows "grid r rate_max step ! i < grid r rate_max step ! j"
  using assms by (simp add: grid_nth)

lemma sorted_grid: "0 < step \<Longrightarrow> sorted (grid r rate_max step)"
  by (simp add: grid_def sorted_map sorted_wrt_iff_nth_less)

lemma sorted_rate_grid:
  assumes "rate_grid r rate_max step [] = Some rates"
  shows "sorted rates"
proof (cases "rates = []")
  case True
  then show ?thesis by simp
next
  case False
  from rate_grid_eq_grid [OF assms] False show ?thesis by (simp add: sorted_grid)
qed


lemma default_params: "-1 < default_rate_min" "0 < default_step" "default_rate_min \<le> default_rate_max"
  by (simp_all add: default_rate_min_def default_step_def default_rate_max_def)

lemma default_grid_size: "grid_size default_rate_min default_rate_max default_step = 10991"
  by (simp add: grid_size_def default_rate_min_def default_rate_max_def default_step_def)

subsection \<open>Properties of find_all_irrs\<close>

lemma npv_values_of_ok:
  "\<forall>r\<in>set rs. r \<noteq> -1 \<Longrightarrow> npv_values_of c rs = Inr (map (discounted_sum c) rs)"
  by (induction rs) (simp_all add: npv_discounted)

lemma scan_intervals_eq:
  "scan_intervals rates vals js acc =
     acc @ map (\<lambda>i. (rates ! i, rates ! (i + 1))) (filter (\<lambda>i. vals ! i * vals ! (i + 1) < 0) js)"
  by (induction js arbitrary: acc) simp_all

lemma flat_simps [simp]: "flat [] = []" "flat ((l, h) # ivs) = l # h # flat ivs"
  by (simp_all add: flat_def)

lemma set_flat: "set (flat ivs) = (\<Union>(l, h)\<in>set ivs. {l, h})"
  by (induction ivs) auto

lemma refine_intervals_sorted:
  "refine_intervals c ivs acc = Inr irrs \<Longrightarrow> sorted (acc @ flat ivs) \<Longrightarrow> sorted irrs"
proof (induction ivs arbitrary: acc)
  case Nil
  then show ?case by simp
next
  case (Cons iv ivs)
  obtain l h where iv: "iv = (l, h)" by (cases iv) auto
  from Cons.prems(2) have s: "sorted (acc @ l # h # flat ivs)" by (simp add: iv)
  then have lh: "l \<le> h" by (simp add: sorted_append)
  from Cons.prems(1) obtain res where
    res: "irr_bisection_interval c l h default_tol default_max_iter = Inr res"
    by (auto simp: iv split: sum.splits)
  show ?case
  proof (cases res)
    case None
    with Cons.prems(1) res have "refine_intervals c ivs acc = Inr irrs" by (simp add: iv)
    moreover from s have "sorted (acc @ flat ivs)" by (auto simp: sorted_append)
    ultimately show ?thesis by (rule Cons.IH)
  next
    case (Some r)
    with Cons.prems(1) res have "refine_intervals c ivs (acc @ [r]) = Inr irrs" by (simp add: iv)
    moreover from res Some lh have "l \<le> r \<and> r \<le> h" by (auto dest: irr_bisection_within)
    with s have "sorted ((acc @ [r]) @ flat ivs)" by (fastforce simp: sorted_append)
    ultimately show ?thesis by (rule Cons.IH)
  qed
qed


lemma sorted_flat_brackets:
  "sorted rates \<Longrightarrow> sorted_wrt (<) js \<Longrightarrow> \<forall>j\<in>set js. Suc j < length rates \<Longrightarrow>
     sorted (flat (map (\<lambda>i. (rates ! i, rates ! (i + 1))) js))"
proof (induction js)
  case Nil
  show ?case by simp
next
  case (Cons j js)
  have 1: "rates ! j \<le> rates ! Suc j"
    using Cons.prems(1,3) by (simp add: sorted_nth_mono)
  have 2: "\<forall>x\<in>set (flat (map (\<lambda>i. (rates ! i, rates ! (i + 1))) js)). rates ! Suc j \<le> x"
  proof
    fix x assume "x \<in> set (flat (map (\<lambda>i. (rates ! i, rates ! (i + 1))) js))"
    then obtain k where k: "k \<in> set js" "x = rates ! k \<or> x = rates ! Suc k"
      by (auto simp: set_flat)
    with Cons.prems(2,3) have "j < k" "Suc k < length rates" by auto
    then have "rates ! Suc j \<le> rates ! k" "rates ! Suc j \<le> rates ! Suc k"
      using Cons.prems(1) by (simp_all add: sorted_nth_mono)
    with k(2) show "rates ! Suc j \<le> x" by auto
  qed
  from Cons have "sorted (flat (map (\<lambda>i. (rates ! i, rates ! (i + 1))) js))" by simp
  with 1 2 show ?case by fastforce
qed

lemma scanned_brackets:
  assumes "sorted rates"
  shows "sorted (flat (scan_intervals rates vals [0..<length rates - 1] []))"
    and "set (flat (scan_intervals rates vals [0..<length rates - 1] [])) \<subseteq> set rates"
proof -
  let ?js = "filter (\<lambda>i. vals ! i * vals ! (i + 1) < 0) [0..<length rates - 1]"
  have js: "sorted_wrt (<) ?js" "\<forall>j\<in>set ?js. Suc j < length rates"
    by (auto intro: sorted_wrt_filter)
  show "sorted (flat (scan_intervals rates vals [0..<length rates - 1] []))"
    unfolding scan_intervals_eq append_Nil
    by (rule sorted_flat_brackets [OF assms js])
  show "set (flat (scan_intervals rates vals [0..<length rates - 1] [])) \<subseteq> set rates"
    unfolding scan_intervals_eq append_Nil using js(2) by (auto simp: set_flat)
qed

lemma find_all_irrs_sorted:
  assumes "find_all_irrs c rate_min rate_max step = Some (Inr (irrs, rates, vals))"
  shows "sorted irrs"
proof -
  from assms obtain rates' where g: "rate_grid rate_min rate_max step [] = Some rates'"
    by (auto simp: find_all_irrs_def split: option.splits)
  with assms obtain vals' where v: "npv_values_of c rates' = Inr vals'"
    by (auto simp: find_all_irrs_def split: sum.splits)
  with assms g have r: "refine_intervals c (scan_intervals rates' vals' [0..<length rates' - 1] []) [] = Inr irrs"
    by (auto simp: find_all_irrs_def Let_def split: sum.splits)
  have "sorted rates'" using g by (rule sorted_rate_grid)
  from refine_intervals_sorted [OF r] scanned_brackets(1) [OF this] show ?thesis by simp
qed


lemma refine_intervals_returns:
  "sorted (flat ivs) \<Longrightarrow> \<forall>x\<in>set (flat ivs). -1 < x \<Longrightarrow> \<exists>irrs. refine_intervals c ivs acc = Inr irrs"
proof (induction ivs arbitrary: acc)
  case Nil
  show ?case by simp
next
  case (Cons iv ivs)
  obtain l h where iv: "iv = (l, h)" by (cases iv) auto
  from Cons.prems have lh: "-1 < l" "l \<le> h" and s: "sorted (flat ivs)" "\<forall>x\<in>set (flat ivs). -1 < x"
    by (simp_all add: iv)
  have "0 < default_max_iter" by (simp add: default_max_iter_def)
  from irr_bisection_returns(1) [OF lh this, of c default_tol] obtain res where
    res: "irr_bisection_interval c l h default_tol default_max_iter = Inr res" by blast
  show ?case
    using res Cons.IH [OF s] by (cases res) (simp_all add: iv)
qed

lemma refine_intervals_all:
  "sorted (flat ivs) \<Longrightarrow> \<forall>x\<in>set (flat ivs). -1 < x \<Longrightarrow>
   \<forall>(l, h)\<in>set ivs. discounted_sum c l * discounted_sum c h < 0 \<Longrightarrow>
     \<exists>rs. refine_intervals c ivs acc = Inr (acc @ rs) \<and> length rs = length ivs"
proof (induction ivs arbitrary: acc)
  case Nil
  show ?case by simp
next
  case (Cons iv ivs)
  obtain l h where iv: "iv = (l, h)" by (cases iv) auto
  from Cons.prems have lh: "-1 < l" "l \<le> h" and s: "sorted (flat ivs)" "\<forall>x\<in>set (flat ivs). -1 < x"
    and p: "discounted_sum c l * discounted_sum c h < 0"
    and ps: "\<forall>(l, h)\<in>set ivs. discounted_sum c l * discounted_sum c h < 0"
    by (simp_all add: iv)
  have "0 < default_max_iter" by (simp add: default_max_iter_def)
  from irr_bisection_returns(2) [OF lh this p, of default_tol] obtain r where
    r: "irr_bisection_interval c l h default_tol default_max_iter = Inr (Some r)" by blast
  from Cons.IH [OF s ps, of "acc @ [r]"] obtain rs where
    "refine_intervals c ivs (acc @ [r]) = Inr ((acc @ [r]) @ rs)" "length rs = length ivs" by blast
  then have "refine_intervals c (iv # ivs) acc = Inr (acc @ (r # rs)) \<and> length (r # rs) = length (iv # ivs)"
    using r by (simp add: iv)
  then show ?case by blast
qed

text \<open>
  Above \<open>-1\<close> and with a positive step nothing raises: the call returns the grid, the
  discounted sums on it, and one root for each index at which the sums change sign.
\<close>

lemma find_all_irrs_returns:
  assumes "-1 < rate_min" "0 < step"
  shows "\<exists>irrs. find_all_irrs c rate_min rate_max step =
             Some (Inr (irrs, grid rate_min rate_max step,
                        map (discounted_sum c) (grid rate_min rate_max step))) \<and>
           length irrs = length (sign_changes (map (discounted_sum c) (grid rate_min rate_max step)))"
proof -
  define rates where "rates = grid rate_min rate_max step"
  define vals where "vals = map (discounted_sum c) rates"
  have g: "rate_grid rate_min rate_max step [] = Some rates"
    unfolding rates_def using assms(2) by (rule rate_grid_terminates)
  have above: "\<forall>x\<in>set rates. -1 < x"
    using grid_bounds(1) [OF assms(2), of _ rate_min rate_max] assms(1) by (fastforce simp: rates_def)
  then have v: "npv_values_of c rates = Inr vals"
    unfolding vals_def by (intro npv_values_of_ok) fastforce
  let ?ivs = "scan_intervals rates vals [0..<length rates - 1] []"
  have s: "sorted rates" unfolding rates_def using assms(2) by (rule sorted_grid)
  have sf: "sorted (flat ?ivs)" using s by (rule scanned_brackets(1))
  have ab: "\<forall>x\<in>set (flat ?ivs). -1 < x"
    using scanned_brackets(2) [OF s, of vals] above by blast
  have len: "length ?ivs = length (sign_changes vals)"
    by (simp add: scan_intervals_eq sign_changes_def vals_def)
  have "\<forall>(l, h)\<in>set ?ivs. discounted_sum c l * discounted_sum c h < 0"
    by (auto simp: scan_intervals_eq vals_def)
  from refine_intervals_all [OF sf ab this, of "[]"] obtain irrs where
    "refine_intervals c ?ivs [] = Inr irrs" "length irrs = length ?ivs" by auto
  then have "find_all_irrs c rate_min rate_max step = Some (Inr (irrs, rates, vals)) \<and>
           length irrs = length (sign_changes vals)"
    using g v len by (simp add: find_all_irrs_def Let_def)
  then show ?thesis unfolding vals_def rates_def by blast
qed

lemma sign_changes_Nil:
  "\<forall>i. Suc i < length vals \<longrightarrow> \<not> vals ! i * vals ! Suc i < 0 \<Longrightarrow> sign_changes vals = []"
  by (auto simp: sign_changes_def filter_empty_conv)

lemma find_all_irrs_one_sign:
  assumes "-1 < rate_min" "0 < step"
    and "(\<forall>x\<in>set c. 0 < x) \<or> (\<forall>x\<in>set c. x < 0)"
  shows "find_all_irrs c rate_min rate_max step =
           Some (Inr ([], grid rate_min rate_max step,
                      map (discounted_sum c) (grid rate_min rate_max step)))"
proof -
  let ?rates = "grid rate_min rate_max step"
  let ?vals = "map (discounted_sum c) ?rates"
  have above: "-1 < ?rates ! i" if "i < length ?rates" for i
    using grid_bounds(1) [OF assms(2), of "?rates ! i" rate_min rate_max] assms(1) that
    by (meson less_le_trans nth_mem)
  have "\<not> ?vals ! i * ?vals ! Suc i < 0" if "Suc i < length ?vals" for i
  proof -
    from that have i: "i < length ?rates" "Suc i < length ?rates" by simp_all
    from assms(3) show ?thesis
    proof
      assume pos: "\<forall>x\<in>set c. 0 < x"
      have "0 \<le> discounted_sum c (?rates ! i)" "0 \<le> discounted_sum c (?rates ! Suc i)"
        using above i pos by (simp_all add: discounted_sum_nonneg)
      then show ?thesis using i by (simp add: not_less)
    next
      assume neg: "\<forall>x\<in>set c. x < 0"
      have "discounted_sum c (?rates ! i) \<le> 0" "discounted_sum c (?rates ! Suc i) \<le> 0"
        using above i neg by (simp_all add: discounted_sum_nonpos)
      then show ?thesis using i by (simp add: not_less mult_nonpos_nonpos)
    qed
  qed
  then have "sign_changes ?vals = []" by (intro sign_changes_Nil) blast
  with find_all_irrs_returns [OF assms(1,2), of c rate_max] show ?thesis by simp
qed

text \<open>A strictly decreasing list of values changes sign at most once.\<close>

lemma filter_at_most_one:
  "distinct xs \<Longrightarrow> (\<forall>x\<in>set xs. \<forall>y\<in>set xs. P x \<and> P y \<longrightarrow> x = y) \<Longrightarrow> length (filter P xs) \<le> 1"
proof (induction xs)
  case Nil
  show ?case by simp
next
  case (Cons a xs)
  show ?case
  proof (cases "P a")
    case True
    have "filter P xs = []"
    proof (rule ccontr)
      assume "filter P xs \<noteq> []"
      then obtain y where "y \<in> set xs" "P y" by (auto simp: filter_empty_conv)
      with True Cons.prems show False by auto
    qed
    with True show ?thesis by simp
  next
    case False
    with Cons show ?thesis by simp
  qed
qed

lemma decreasing_crossing:
  assumes "sorted_wrt (>) (vals :: real list)" "Suc k < length vals" "0 < vals ! 0" "vals ! Suc k < 0"
    "0 \<notin> set vals"
  shows "\<exists>i\<le>k. vals ! i * vals ! Suc i < 0"
  using assms(2,4)
proof (induction k)
  case 0
  with assms(3) show ?case by (auto simp: mult_less_0_iff)
next
  case (Suc k)
  have nz: "vals ! Suc k \<noteq> 0" using assms(5) Suc.prems(1) by (metis Suc_lessD nth_mem)
  show ?case
  proof (cases "0 < vals ! Suc k")
    case True
    with Suc.prems(2) have "vals ! Suc k * vals ! Suc (Suc k) < 0" by (simp add: mult_less_0_iff)
    then show ?thesis by blast
  next
    case False
    with nz have "vals ! Suc k < 0" by simp
    with Suc.IH Suc.prems(1) obtain i where "i \<le> k" "vals ! i * vals ! Suc i < 0" by auto
    then show ?thesis using le_SucI by blast
  qed
qed

lemma sign_changes_decreasing:
  assumes "sorted_wrt (>) (vals :: real list)" "vals \<noteq> []"
  shows "length (sign_changes vals) = (if 0 < hd vals \<and> last vals < 0 \<and> 0 \<notin> set vals then 1 else 0)"
proof -
  let ?P = "\<lambda>i. vals ! i * vals ! (i + 1) < 0"
  let ?n = "length vals"
  have dec: "vals ! j < vals ! i" if "i < j" "j < ?n" for i j
    using assms(1) that by (simp add: sorted_wrt_iff_nth_less)
  have dec_le: "vals ! j \<le> vals ! i" if "i \<le> j" "j < ?n" for i j
    using dec [of i j] that by (cases "i = j") auto
  have cross: "0 < vals ! i \<and> vals ! Suc i < 0" if "Suc i < ?n" "?P i" for i
    using that dec [of i "Suc i"] by (auto simp: mult_less_0_iff)
  have uniq: "\<forall>x\<in>set [0..<?n - 1]. \<forall>y\<in>set [0..<?n - 1]. ?P x \<and> ?P y \<longrightarrow> x = y"
  proof (intro ballI impI)
    fix x y assume xy: "x \<in> set [0..<?n - 1]" "y \<in> set [0..<?n - 1]" "?P x \<and> ?P y"
    then have b: "Suc x < ?n" "Suc y < ?n" by auto
    from cross [OF b(1)] cross [OF b(2)] xy(3)
    have c: "0 < vals ! x" "vals ! Suc x < 0" "0 < vals ! y" "vals ! Suc y < 0" by simp_all
    show "x = y"
    proof (rule ccontr)
      assume "x \<noteq> y"
      then consider "x < y" | "y < x" by linarith
      then show False
      proof cases
        case 1
        then have "vals ! y \<le> vals ! Suc x" using dec_le [of "Suc x" y] b by simp
        with c show False by linarith
      next
        case 2
        then have "vals ! x \<le> vals ! Suc y" using dec_le [of "Suc y" x] b by simp
        with c show False by linarith
      qed
    qed
  qed
  have le1: "length (sign_changes vals) \<le> 1"
    unfolding sign_changes_def by (rule filter_at_most_one [OF _ uniq]) simp
  have hd0: "hd vals = vals ! 0" and lst: "last vals = vals ! (?n - 1)"
    using assms(2) by (simp_all add: hd_conv_nth last_conv_nth)
  show ?thesis
  proof (cases "0 < hd vals \<and> last vals < 0 \<and> 0 \<notin> set vals")
    case True
    then have "?n \<noteq> 1" using hd0 lst by (cases vals) auto
    with assms(2) obtain k where k: "?n = Suc (Suc k)"
      by (metis One_nat_def length_0_conv not0_implies_Suc)
    with True hd0 lst have "0 < vals ! 0" "vals ! Suc k < 0" by simp_all
    from decreasing_crossing [OF assms(1) _ this] k True
    obtain i where "i \<le> k" "?P i" by auto
    moreover from this k have "i < ?n - 1" by simp
    ultimately have "i \<in> set (sign_changes vals)"
      unfolding sign_changes_def set_filter by simp
    then have "sign_changes vals \<noteq> []" by auto
    then have "0 < length (sign_changes vals)" by simp
    with le1 have "length (sign_changes vals) = 1" by linarith
    with True show ?thesis by simp
  next
    case False
    have "sign_changes vals = []"
    proof (rule ccontr)
      assume "sign_changes vals \<noteq> []"
      then obtain i where "i < ?n - 1" and Pi: "?P i"
        by (auto simp: sign_changes_def filter_empty_conv)
      then have "Suc i < ?n" by linarith
      note i = this Pi
      from cross [OF i] have c: "0 < vals ! i" "vals ! Suc i < 0" by simp_all
      have "vals ! i \<le> vals ! 0" using i by (intro dec_le) simp_all
      then have "0 < hd vals" using c hd0 by simp
      moreover have "vals ! (?n - 1) \<le> vals ! Suc i" using i by (intro dec_le) linarith+
      then have "last vals < 0" using c lst by simp
      moreover have "0 \<notin> set vals"
      proof
        assume "0 \<in> set vals"
        then obtain j where j: "j < ?n" "vals ! j = 0" by (auto simp: in_set_conv_nth)
        show False
        proof (cases "j \<le> i")
          case True
          then have "vals ! i \<le> vals ! j" using dec_le [of j i] i by simp
          with c j show False by simp
        next
          case False
          then have "vals ! j \<le> vals ! Suc i" using dec_le [of "Suc i" j] j by simp
          with c j show False by simp
        qed
      qed
      ultimately show False using False by simp
    qed
    with False show ?thesis by simp
  qed
qed

lemma grid_vals_decreasing:
  assumes "-1 < rate_min" "0 < step" "rest \<noteq> []" "\<forall>x\<in>set rest. 0 < x"
  shows "sorted_wrt (>) (map (discounted_sum (c0 # rest)) (grid rate_min rate_max step))"
proof -
  let ?rates = "grid rate_min rate_max step"
  have "discounted_sum (c0 # rest) (?rates ! j) < discounted_sum (c0 # rest) (?rates ! i)"
    if "i < j" "j < length ?rates" for i j
  proof -
    from that have "?rates ! i < ?rates ! j"
      using grid_strict_mono [OF assms(2), of i j rate_min rate_max] by (simp add: length_grid)
    moreover have "-1 < ?rates ! i"
      using grid_bounds(1) [OF assms(2), of "?rates ! i" rate_min rate_max] assms(1) that
      by (simp add: less_le_trans)
    ultimately show ?thesis using assms(3,4) by (intro discounted_sum_strict_antimono)
  qed
  then show ?thesis by (simp add: sorted_wrt_iff_nth_less)
qed

lemma find_all_irrs_annuity:
  assumes "-1 < rate_min" "0 < step" "rate_min \<le> rate_max" "rest \<noteq> []" "\<forall>x\<in>set rest. 0 < x"
  shows "\<exists>irrs rates vals. find_all_irrs (c0 # rest) rate_min rate_max step = Some (Inr (irrs, rates, vals)) \<and>
           rates = grid rate_min rate_max step \<and> vals = map (discounted_sum (c0 # rest)) rates \<and>
           length irrs = (if 0 < hd vals \<and> last vals < 0 \<and> 0 \<notin> set vals then 1 else 0)"
proof -
  let ?rates = "grid rate_min rate_max step"
  let ?vals = "map (discounted_sum (c0 # rest)) ?rates"
  have "0 < grid_size rate_min rate_max step" using assms(3) by (simp add: grid_size_def)
  then have ne: "?vals \<noteq> []" by (simp add: grid_def)
  from find_all_irrs_returns [OF assms(1,2), of "c0 # rest" rate_max] obtain irrs where
    "find_all_irrs (c0 # rest) rate_min rate_max step = Some (Inr (irrs, ?rates, ?vals))"
    "length irrs = length (sign_changes ?vals)" by blast
  moreover note sign_changes_decreasing [OF grid_vals_decreasing [OF assms(1,2,4,5), of c0 rate_max] ne]
  ultimately show ?thesis by auto
qed

text \<open>Two runs on concrete inputs.\<close>

lemma grid_0_4_2: "grid 0 4 2 = [0, 2, 4]"
  by (simp add: grid_def grid_size_def upt_conv_Cons)

lemma two_roots:
  "find_all_irrs [-1, 6, -8] 0 4 2 = Some (Inr ([1, 3], [0, 2, 4], [-3, 1 / 9, - (3 / 25)]))"
proof -
  have g: "rate_grid 0 4 2 [] = Some [0, 2, 4]"
    using rate_grid_terminates [of 2 0 4] by (simp add: grid_0_4_2)
  have v: "npv_values_of [-1, 6, -8] [0, 2, 4] = Inr [-3, 1 / 9, - (3 / 25)]"
    by (simp add: npv3)
  have s: "scan_intervals [0, 2, 4] [-3, 1 / 9, - (3 / 25)] [0..<length [0, 2, 4 :: real] - 1] [] = [(0, 2), (2, 4)]"
    by (simp add: upt_conv_Cons)
  have b1: "irr_bisection_interval [-1, 6, -8] 0 2 default_tol default_max_iter = Inr (Some 1)"
    by (simp add: irr_bisection_interval_def npv3 default_tol_def default_max_iter_def numeral_eq_Suc)
  have b2: "irr_bisection_interval [-1, 6, -8] 2 4 default_tol default_max_iter = Inr (Some 3)"
    by (simp add: irr_bisection_interval_def npv3 default_tol_def default_max_iter_def numeral_eq_Suc)
  have r: "refine_intervals [-1, 6, -8] [(0, 2), (2, 4)] [] = Inr [1, 3]"
    by (simp add: b1 b2)
  show ?thesis
    unfolding find_all_irrs_def g v option.case sum.case Let_def s r ..
qed

text \<open>
  What a returning call has built: either no grid rate at all (and then no root), or, for
  a positive step and a non-empty range, the closed-form grid.
\<close>

lemma find_all_irrs_cases:
  assumes "find_all_irrs c rate_min rate_max step = Some (Inr (irrs, rates, vals))"
  shows "(rates = [] \<and> vals = [] \<and> irrs = []) \<or>
         (0 < step \<and> rate_min \<le> rate_max \<and> rates = grid rate_min rate_max step)"
proof -
  from assms obtain rates' where g: "rate_grid rate_min rate_max step [] = Some rates'"
    by (auto simp: find_all_irrs_def split: option.splits)
  with assms have eq: "rates' = rates"
    by (auto simp: find_all_irrs_def Let_def split: sum.splits)
  show ?thesis
  proof (cases "rates = []")
    case True
    with assms g eq have "vals = [] \<and> irrs = []"
      by (auto simp: find_all_irrs_def Let_def split: sum.splits)
    with True show ?thesis by simp
  next
    case False
    with rate_grid_eq_grid [OF g] eq
    have r: "rates = grid rate_min rate_max step" and s: "0 < step" by simp_all
    from False r have "rate_min \<le> rate_max"
      by (auto simp: grid_def grid_size_def split: if_splits)
    with r s show ?thesis by simp
  qed
qed

text \<open>
  C6. For every cash-flow sequence, the list of roots returned by \<open>find_all_irrs\<close> is
  sorted in ascending rate order, whatever the scan range and the step.
\<close>

theorem irrs_ascending:
  "find_all_irrs c rate_min rate_max step = Some (Inr (irrs, rates, vals)) \<Longrightarrow> sorted irrs"
  by (rule find_all_irrs_sorted)

theorem irrs_ascending_witness:
  "find_all_irrs [-1, 6, -8] 0 4 2 = Some (Inr ([1, 3], [0, 2, 4], [-3, 1 / 9, - (3 / 25)])) \<and>
   sorted [1, 3 :: real]"
proof -
  from irrs_ascending [OF two_roots] have "sorted [1, 3 :: real]" .
  with two_roots show ?thesis by blast
qed

text \<open>
  X1. When every cash flow is positive, or every cash flow is negative, and the scan
  starts above \<open>-1\<close>, a call of \<open>find_all_irrs\<close> that returns, returns no root.
\<close>

theorem one_signed_returns_no_irr:
  assumes "(\<forall>x\<in>set c. 0 < x) \<or> (\<forall>x\<in>set c. x < 0)" and "-1 < rate_min"
    and "find_all_irrs c rate_min rate_max step = Some (Inr (irrs, rates, vals))"
  shows "irrs = []"
proof -
  from find_all_irrs_cases [OF assms(3)]
  consider "irrs = []" | "0 < step" by blast
  then show ?thesis
  proof cases
    case 1
    then show ?thesis .
  next
    case 2
    from find_all_irrs_one_sign [OF assms(2) 2 assms(1), of rate_max] assms(3)
    show ?thesis by simp
  qed
qed

theorem one_signed_returns_no_irr_witness:
  "find_all_irrs [3, 12] 1 5 2 = Some (Inr ([], [1, 3, 5], [9, 6, 5]))"
proof -
  have p: "(\<forall>x\<in>set [3, 12 :: real]. 0 < x) \<or> (\<forall>x\<in>set [3, 12 :: real]. x < 0)" by simp
  have g: "grid 1 5 2 = [1, 3, 5]"
    by (simp add: grid_def grid_size_def upt_conv_Cons)
  from find_all_irrs_returns [of 1 2 "[3, 12]" 5] obtain irrs where
    r: "find_all_irrs [3, 12] 1 5 2 = Some (Inr (irrs, [1, 3, 5], [9, 6, 5]))"
    by (auto simp: g discounted_sum2)
  have "-1 < (1::real)" by simp
  from one_signed_returns_no_irr [OF p this r] r show ?thesis by simp
qed




text \<open>
  C2 is a statement about rounding and is not settled in this embedding. In exact
  arithmetic the default grid contains the rate \<open>0.21\<close> itself (its 1201st rate is
  \<open>-0.99 + 1200 * 0.001\<close>), the NPV of \<open>[-100, 121]\<close> there is exactly 0, no pair of
  adjacent grid NPVs has a negative product, and the exact run finds no root. With IEEE
  doubles the rate accumulated by \<open>r += step\<close> is \<open>0.21000000000000105\<close>, the NPV there is
  about \<open>-8.5e-14\<close>, and the script does see the sign change; that run is outside the
  embedding. The lemma records the exact run only.
\<close>

lemma exact_grid_meets_root:
  "grid default_rate_min default_rate_max default_step ! 1200 = 21 / 100 \<and>
   npv (21 / 100) [-100, 121] = Inr 0 \<and>
   found_irrs [-100, 121] = Some (Inr [])"
proof -
  let ?g = "grid default_rate_min default_rate_max default_step"
  let ?vals = "map (discounted_sum [-100, 121]) ?g"
  have n: "length ?g = 10991" by (simp add: length_grid default_grid_size)
  have g: "?g ! 1200 = 21 / 100"
    using default_grid_size by (simp add: grid_nth default_rate_min_def default_step_def)
  have v: "npv (21 / 100) [-100, 121] = Inr 0" by (simp add: npv2)
  have "?vals ! 1200 = discounted_sum [-100, 121] (?g ! 1200)" using n by simp
  also have "\<dots> = 0" unfolding g by (simp add: discounted_sum2)
  finally have "?vals ! 1200 = 0" .
  moreover have "1200 < length ?vals" using n by simp
  ultimately have z: "0 \<in> set ?vals" by (metis nth_mem)
  have "[121 :: real] \<noteq> []" "\<forall>x\<in>set [121 :: real]. 0 < x" by simp_all
  from find_all_irrs_annuity [OF default_params(1,2,3) this, of "-100"] z
  have "\<exists>irrs rates vals.
      find_all_irrs [-100, 121] default_rate_min default_rate_max default_step
        = Some (Inr (irrs, rates, vals)) \<and> length irrs = 0"
    by auto
  then have "found_irrs [-100, 121] = Some (Inr [])" by (auto simp: found_irrs_def)
  with g v show ?thesis by simp
qed



subsection \<open>Properties of the GBM price grid\<close>

text \<open>
  The fill loop visits the rows \<open>1, ..., steps\<close> in ascending order, so the row it reads
  is final when it is read and no later pass overwrites a row once written.
\<close>

lemma gbm_fill_Cons:
  "gbm_fill mu sigma dt Z (t # ts) S =
     gbm_fill mu sigma dt Z ts (S[t := gbm_row mu sigma dt (S ! (t - 1)) (Z ! (t - 1))])"
  by (simp add: gbm_row_def)

lemma length_gbm_fill: "length (gbm_fill mu sigma dt Z ts S) = length S"
  by (induction ts arbitrary: S) simp_all

lemma gbm_fill_untouched: "i \<notin> set ts \<Longrightarrow> gbm_fill mu sigma dt Z ts S ! i = S ! i"
  by (induction ts arbitrary: S) simp_all

lemma gbm_fill_row:
  assumes "sorted_wrt (<) ts" "\<forall>t\<in>set ts. 0 < t \<and> t < length S" "t \<in> set ts"
  shows "gbm_fill mu sigma dt Z ts S ! t =
           gbm_row mu sigma dt (gbm_fill mu sigma dt Z ts S ! (t - 1)) (Z ! (t - 1))"
  using assms
proof (induction ts arbitrary: S)
  case Nil
  then show ?case by simp
next
  case (Cons a ts)
  let ?S1 = "S[a := gbm_row mu sigma dt (S ! (a - 1)) (Z ! (a - 1))]"
  have a: "0 < a" "a < length S" "\<forall>x\<in>set ts. a < x" "sorted_wrt (<) ts"
    using Cons.prems(1,2) by simp_all
  show ?case
  proof (cases "t = a")
    case True
    have "a \<notin> set ts" "a - 1 \<notin> set ts" using a(3) by fastforce+
    then have "gbm_fill mu sigma dt Z ts ?S1 ! a = ?S1 ! a"
      and "gbm_fill mu sigma dt Z ts ?S1 ! (a - 1) = ?S1 ! (a - 1)"
      by (simp_all add: gbm_fill_untouched)
    moreover have "?S1 ! a = gbm_row mu sigma dt (S ! (a - 1)) (Z ! (a - 1))" using a(2) by simp
    moreover have "?S1 ! (a - 1) = S ! (a - 1)" using a(1) by simp
    ultimately show ?thesis unfolding gbm_fill_Cons True by simp
  next
    case False
    with Cons.prems(3) have t: "t \<in> set ts" by simp
    have "\<forall>t\<in>set ts. 0 < t \<and> t < length ?S1" using Cons.prems(2) by simp
    from Cons.IH [OF a(4) this t] show ?thesis unfolding gbm_fill_Cons .
  qed
qed

lemma gbm_paths_rows:
  shows "length (gbm_paths S0 mu sigma dt steps N Z) = steps + 1"
    and "gbm_paths S0 mu sigma dt steps N Z ! 0 = replicate N S0"
    and "1 \<le> t \<Longrightarrow> t \<le> steps \<Longrightarrow> gbm_paths S0 mu sigma dt steps N Z ! t =
           gbm_row mu sigma dt (gbm_paths S0 mu sigma dt steps N Z ! (t - 1)) (Z ! (t - 1))"
proof -
  let ?S = "(replicate (steps + 1) (replicate N 0))[0 := replicate N S0]"
  show "length (gbm_paths S0 mu sigma dt steps N Z) = steps + 1"
    by (simp add: gbm_paths_def length_gbm_fill)
  have "gbm_paths S0 mu sigma dt steps N Z ! 0 = ?S ! 0"
    unfolding gbm_paths_def by (rule gbm_fill_untouched) simp
  then show "gbm_paths S0 mu sigma dt steps N Z ! 0 = replicate N S0" by simp
  show "gbm_paths S0 mu sigma dt steps N Z ! t =
           gbm_row mu sigma dt (gbm_paths S0 mu sigma dt steps N Z ! (t - 1)) (Z ! (t - 1))"
    if "1 \<le> t" "t \<le> steps"
    unfolding gbm_paths_def
  proof (rule gbm_fill_row)
    show "sorted_wrt (<) [1..<steps + 1]" by (simp del: upt_Suc)
    show "\<forall>t\<in>set [1..<steps + 1]. 0 < t \<and> t < length ?S" by (simp del: upt_Suc)
    show "t \<in> set [1..<steps + 1]" using that by (simp del: upt_Suc)
  qed
qed

lemma gbm_paths_row_length:
  assumes "length Z = steps" "\<forall>row\<in>set Z. length row = N"
  shows "t \<le> steps \<Longrightarrow> length (gbm_paths S0 mu sigma dt steps N Z ! t) = N"
proof (induction t)
  case 0
  show ?case by (simp add: gbm_paths_rows(2))
next
  case (Suc t)
  then have "length (gbm_paths S0 mu sigma dt steps N Z ! t) = N" by simp
  moreover have "length (Z ! t) = N" using assms Suc.prems by simp
  ultimately show ?case
    using gbm_paths_rows(3) [of "Suc t" steps S0 mu sigma dt N Z] Suc.prems
    by (simp add: gbm_row_def)
qed

text \<open>
  C9. In the GBM price grid, row 0 equals the initial price \<open>S0\<close> for every path, and
  for every step \<open>t\<close> from 1 to \<open>steps\<close> and every path \<open>i\<close>,
  \<open>S[t][i] = S[t-1][i] * exp((mu - 0.5 * sigma^2) * dt + sigma * sqrt(dt) * Z[t-1][i])\<close>:
  each row comes from the row before it and its own shock only, with no dependence on
  other paths. \<open>Z\<close> is any array of shape \<open>steps \<times> N\<close>.
\<close>

theorem gbm_recurrence:
  assumes "length Z = steps" "\<forall>row\<in>set Z. length row = N"
  shows "length (gbm_paths S0 mu sigma dt steps N Z) = steps + 1 \<and>
    (\<forall>i<N. gbm_paths S0 mu sigma dt steps N Z ! 0 ! i = S0) \<and>
    (\<forall>t i. 1 \<le> t \<and> t \<le> steps \<and> i < N \<longrightarrow>
       gbm_paths S0 mu sigma dt steps N Z ! t ! i =
         gbm_paths S0 mu sigma dt steps N Z ! (t - 1) ! i *
           exp ((mu - 0.5 * sigma ^ 2) * dt + sigma * sqrt dt * Z ! (t - 1) ! i))"
proof (intro conjI allI impI)
  show "length (gbm_paths S0 mu sigma dt steps N Z) = steps + 1" by (rule gbm_paths_rows(1))
next
  fix i assume "i < N"
  then show "gbm_paths S0 mu sigma dt steps N Z ! 0 ! i = S0" by (simp add: gbm_paths_rows(2))
next
  fix t i assume "1 \<le> t \<and> t \<le> steps \<and> i < N"
  then have t1: "1 \<le> t" and t2: "t \<le> steps" and i: "i < N" by simp_all
  let ?S = "gbm_paths S0 mu sigma dt steps N Z"
  from t1 t2 have "t - 1 \<le> steps" "t - 1 < length Z" using assms(1) by arith+
  then have "length (?S ! (t - 1)) = N" "length (Z ! (t - 1)) = N"
    using gbm_paths_row_length [OF assms] assms(2) by simp_all
  moreover have "?S ! t = gbm_row mu sigma dt (?S ! (t - 1)) (Z ! (t - 1))"
    using t1 t2 by (rule gbm_paths_rows(3))
  ultimately show "?S ! t ! i = ?S ! (t - 1) ! i *
           exp ((mu - 0.5 * sigma ^ 2) * dt + sigma * sqrt dt * Z ! (t - 1) ! i)"
    using i by (simp add: gbm_row_def)
qed

theorem gbm_recurrence_witness:
  "gbm_paths 100 (8 / 100) (2 / 10) (1 / 252) 2 2 [[1, -1], [1 / 2, 3]] ! 0 ! 1 = 100 \<and>
   gbm_paths 100 (8 / 100) (2 / 10) (1 / 252) 2 2 [[1, -1], [1 / 2, 3]] ! 2 ! 1 =
     gbm_paths 100 (8 / 100) (2 / 10) (1 / 252) 2 2 [[1, -1], [1 / 2, 3]] ! (2 - 1) ! 1 *
       exp ((8 / 100 - 0.5 * (2 / 10) ^ 2) * (1 / 252)
            + 2 / 10 * sqrt (1 / 252) * [[1, -1], [1 / 2, 3]] ! (2 - 1) ! 1)"
proof -
  have "length [[1, -1], [1 / 2, 3 :: real]] = 2"
    and "\<forall>row\<in>set [[1, -1], [1 / 2, 3 :: real]]. length row = 2"
    by simp_all
  from gbm_recurrence [OF this, of 100 "8 / 100" "2 / 10" "1 / 252"]
  show ?thesis by (metis le_refl one_le_numeral one_less_numeral_iff semiring_norm(76))
qed

end
